theory Spec2Isabelle
  imports Complex_Main "HOL-Library.Sublist" "HOL-Library.Word"
begin

section \<open>The UserTable component (src/src/App.tsx, Components/UserTable part)\<close>

text \<open>
  The component is a function of seven \<open>useState\<close> cells. Every handler and effect of the
  source is embedded as a function from the state before to the state after; values
  recomputed on each render (\<open>currentUsers\<close>, \<open>totalPages\<close>, \<open>isAllSelected\<close>) are functions
  of the state. JavaScript numbers that hold ids, page numbers and indices are integers
  here; a string is the list of its UTF-16 code units.
\<close>

subsection \<open>Strings and arrays of the platform\<close>

type_synonym code_unit = "16 word"

type_synonym jsstring = "code_unit list"

text \<open>
  A string literal of the source, whose characters all have codes below 256: each
  character is the code unit of the same number.
\<close>

definition utf16 :: "string \<Rightarrow> jsstring" where
  "utf16 s = map of_char s"

text \<open>
  \<open>String.prototype.toLowerCase\<close> is the platform's Unicode lowercasing. Nothing below
  depends on what it computes: every definition that calls it takes it as its first
  argument, named \<open>toLowerCase\<close>, and every theorem holds for every such function.
\<close>

text \<open>
  \<open>s.includes(t)\<close>, here \<open>includes_str s t\<close>: some position of \<open>s\<close> starts an
  occurrence of \<open>t\<close>. The scan tries the positions from left to right; the empty \<open>t\<close>
  occurs in every string.
\<close>

fun includes_str :: "jsstring \<Rightarrow> jsstring \<Rightarrow> bool" where
  "includes_str [] t = (t = [])"
| "includes_str (c # s) t = (prefix t (c # s) \<or> includes_str s t)"

text \<open>
  \<open>[...new Set(xs)]\<close>: a Set keeps its elements in insertion order and ignores the
  insertion of an element it already has.
\<close>

definition setAdd :: "'a list \<Rightarrow> 'a \<Rightarrow> 'a list" where
  "setAdd acc x = (if x \<in> set acc then acc else acc @ [x])"

definition spreadSet :: "'a list \<Rightarrow> 'a list" where
  "spreadSet xs = foldl setAdd [] xs"

text \<open>
  \<open>xs.slice(start, end)\<close> with integer arguments: a negative index counts from the end,
  both indices are clamped to the array, and an end at or before the start gives \<open>[]\<close>.
\<close>

definition slice :: "'a list \<Rightarrow> int \<Rightarrow> int \<Rightarrow> 'a list" where
  "slice xs start stop =
     (let len = int (length xs);
          k = (if start < 0 then max (len + start) 0 else min start len);
          final = (if stop < 0 then max (len + stop) 0 else min stop len)
      in take (nat (final - k)) (drop (nat k) xs))"

text \<open>A number inside a template literal: its decimal digits.\<close>

definition digit_unit :: "nat \<Rightarrow> code_unit" where
  "digit_unit d = of_nat (48 + d)"

fun show_nat :: "nat \<Rightarrow> jsstring" where
  "show_nat n = (if n < 10 then [digit_unit n] else show_nat (n div 10) @ [digit_unit (n mod 10)])"

declare show_nat.simps [simp del]

subsection \<open>The data model\<close>

record LoginInfo =
  uuid :: jsstring
  username :: jsstring
  password :: jsstring
  md5 :: jsstring
  sha1 :: jsstring
  registered :: jsstring

record GeoLocation =
  lat :: jsstring
  lng :: jsstring

record Address =
  street :: jsstring
  suite :: jsstring
  city :: jsstring
  zipcode :: jsstring
  geo :: GeoLocation

record Company =
  name :: jsstring
  catchPhrase :: jsstring
  bs :: jsstring

text \<open>The field \<open>id\<close> of the source is \<open>user_id\<close> here.\<close>

record User =
  user_id :: int
  firstname :: jsstring
  lastname :: jsstring
  email :: jsstring
  birthDate :: jsstring
  login :: LoginInfo
  address :: Address
  phone :: jsstring
  website :: jsstring
  company :: Company

record state =
  users :: "User list"
  filteredUsers :: "User list"
  selectedUsers :: "int list"
  searchTerm :: jsstring
  currentPage :: int
  loading :: bool
  error :: "jsstring option"

definition usersPerPage :: int where
  "usersPerPage = 5"

text \<open>The initial values of the \<open>useState\<close> cells.\<close>

definition initial :: state where
  "initial = \<lparr>users = [], filteredUsers = [], selectedUsers = [], searchTerm = [],
     currentPage = 1, loading = True, error = None\<rparr>"

subsection \<open>The fetch of the base list\<close>

text \<open>
  What the \<open>catch\<close> clause can receive: an \<open>Error\<close> object with its message, or any other
  thrown value.
\<close>

datatype thrown = ErrorObject jsstring | OtherValue

text \<open>
  What \<open>response.json()\<close> resolves to, as far as the source inspects it
  (\<open>Array.isArray\<close>, then the declared element type).
\<close>

datatype json = NotAnArray | ArrayOf "User list"

text \<open>
  A response: its status code, and the outcome of \<open>response.json()\<close>, which rejects when
  the body does not parse. \<open>response.ok\<close> is true for the codes 200 to 299.
\<close>

record response =
  status :: nat
  json_result :: "thrown + json"

definition ok :: "response \<Rightarrow> bool" where
  "ok r = (200 \<le> status r \<and> status r \<le> 299)"

datatype fetch_result = Rejected thrown | Resolved response

text \<open>The body of the \<open>try\<close> block after the two setters: \<open>Inl\<close> is the value thrown.\<close>

definition fetchUsers_try :: "fetch_result \<Rightarrow> thrown + User list" where
  "fetchUsers_try fr =
     (case fr of
        Rejected e \<Rightarrow> Inl e
      | Resolved r \<Rightarrow>
          if \<not> ok r then Inl (ErrorObject (utf16 ''HTTP error! status: '' @ show_nat (status r)))
          else (case json_result r of
                  Inl e \<Rightarrow> Inl e
                | Inr NotAnArray \<Rightarrow>
                    Inl (ErrorObject (utf16 ''Invalid data format received from API''))
                | Inr (ArrayOf d) \<Rightarrow>
                    if length d > 0 then Inr d
                    else Inl (ErrorObject (utf16 ''Invalid data format received from API''))))"

definition errorMessage :: "thrown \<Rightarrow> jsstring" where
  "errorMessage err =
     (case err of ErrorObject m \<Rightarrow> m | OtherValue \<Rightarrow> utf16 ''Failed to fetch users'')"

definition fetchUsers :: "fetch_result \<Rightarrow> state \<Rightarrow> state" where
  "fetchUsers fr s =
     (let s0 = s\<lparr>loading := True, error := None\<rparr>;
          s1 = (case fetchUsers_try fr of
                  Inr d \<Rightarrow> s0\<lparr>users := d, filteredUsers := d\<rparr>
                | Inl err \<Rightarrow> s0\<lparr>error := Some (errorMessage err)\<rparr>)
      in s1\<lparr>loading := False\<rparr>)"

subsection \<open>The filter effect\<close>

definition user_matches :: "(jsstring \<Rightarrow> jsstring) \<Rightarrow> jsstring \<Rightarrow> User \<Rightarrow> bool" where
  "user_matches toLowerCase t user =
     (let searchLower = toLowerCase t in
        includes_str (toLowerCase (firstname user)) searchLower \<or>
        includes_str (toLowerCase (lastname user)) searchLower \<or>
        includes_str (toLowerCase (email user)) searchLower \<or>
        includes_str (toLowerCase (username (login user))) searchLower)"

definition filterEffect :: "(jsstring \<Rightarrow> jsstring) \<Rightarrow> state \<Rightarrow> state" where
  "filterEffect toLowerCase s =
     (if length (users s) = 0 then s
      else s\<lparr>filteredUsers := filter (user_matches toLowerCase (searchTerm s)) (users s),
             currentPage := 1\<rparr>)"

subsection \<open>Values computed on each render\<close>

definition indexOfLastUser :: "state \<Rightarrow> int" where
  "indexOfLastUser s = currentPage s * usersPerPage"

definition indexOfFirstUser :: "state \<Rightarrow> int" where
  "indexOfFirstUser s = indexOfLastUser s - usersPerPage"

definition currentUsers :: "state \<Rightarrow> User list" where
  "currentUsers s = slice (filteredUsers s) (indexOfFirstUser s) (indexOfLastUser s)"

text \<open>
  \<open>Math.ceil(filteredUsers.length / usersPerPage)\<close>: the quotient is a real number, and
  its ceiling the least integer that is not below it.
\<close>

definition totalPages :: "state \<Rightarrow> int" where
  "totalPages s = \<lceil>real (length (filteredUsers s)) / real_of_int usersPerPage\<rceil>"

definition isAllSelected :: "state \<Rightarrow> bool" where
  "isAllSelected s =
     (length (currentUsers s) > 0 \<and>
      list_all (\<lambda>user. user_id user \<in> set (selectedUsers s)) (currentUsers s))"

subsection \<open>The handlers\<close>

definition handleSelectUser :: "int \<Rightarrow> state \<Rightarrow> state" where
  "handleSelectUser userId s =
     (if userId \<in> set (selectedUsers s)
      then s\<lparr>selectedUsers := filter (\<lambda>i. i \<noteq> userId) (selectedUsers s)\<rparr>
      else s\<lparr>selectedUsers := selectedUsers s @ [userId]\<rparr>)"

definition handleSelectAll :: "bool \<Rightarrow> state \<Rightarrow> state" where
  "handleSelectAll checked s =
     (if checked then
        (let allCurrentIds = map user_id (currentUsers s);
             newSelected = spreadSet (selectedUsers s @ allCurrentIds)
         in s\<lparr>selectedUsers := newSelected\<rparr>)
      else
        (let currentIds = map user_id (currentUsers s)
         in s\<lparr>selectedUsers := filter (\<lambda>i. i \<notin> set currentIds) (selectedUsers s)\<rparr>))"

definition previousHandler :: "state \<Rightarrow> state" where
  "previousHandler s = s\<lparr>currentPage := max (currentPage s - 1) 1\<rparr>"

definition nextHandler :: "state \<Rightarrow> state" where
  "nextHandler s = s\<lparr>currentPage := min (currentPage s + 1) (totalPages s)\<rparr>"

text \<open>
  The search box sets \<open>searchTerm\<close>; the filter effect depends on \<open>[searchTerm, users]\<close>
  and runs again only when one of them has changed.
\<close>

definition onSearchChange :: "(jsstring \<Rightarrow> jsstring) \<Rightarrow> jsstring \<Rightarrow> state \<Rightarrow> state" where
  "onSearchChange toLowerCase t s =
     (if t = searchTerm s then s else filterEffect toLowerCase (s\<lparr>searchTerm := t\<rparr>))"

text \<open>
  The fetch settles; when it stored a new \<open>users\<close> array the filter effect runs again.
\<close>

definition onFetchSettled :: "(jsstring \<Rightarrow> jsstring) \<Rightarrow> fetch_result \<Rightarrow> state \<Rightarrow> state" where
  "onFetchSettled toLowerCase fr s =
     (case fetchUsers_try fr of
        Inr d \<Rightarrow> filterEffect toLowerCase (fetchUsers fr s)
      | Inl err \<Rightarrow> fetchUsers fr s)"

subsection \<open>What is on screen, and the reachable states\<close>

datatype screen = LoadingScreen | ErrorScreen jsstring | TableScreen

text \<open>\<open>if (loading) ...; if (error) ...\<close>: the empty string is falsy, as \<open>null\<close> is.\<close>

definition render :: "state \<Rightarrow> screen" where
  "render s =
     (if loading s then LoadingScreen
      else (case error s of
              None \<Rightarrow> TableScreen
            | Some m \<Rightarrow> if m = [] then TableScreen else ErrorScreen m))"

text \<open>The pagination bar is rendered under \<open>filteredUsers.length > 0\<close>.\<close>

definition paginationShown :: "state \<Rightarrow> bool" where
  "paginationShown s = (render s = TableScreen \<and> length (filteredUsers s) > 0)"

definition previousDisabled :: "state \<Rightarrow> bool" where
  "previousDisabled s = (currentPage s = 1)"

definition nextDisabled :: "state \<Rightarrow> bool" where
  "nextDisabled s = (currentPage s = totalPages s)"

datatype event =
    FetchSettled fetch_result
  | SearchInput jsstring
  | RowCheckbox int
  | HeaderCheckbox bool
  | PreviousClick
  | NextClick

text \<open>
  An event can happen when its control is on screen and not disabled; the one fetch,
  issued on mount, settles while the component is loading.
\<close>

fun enabled :: "event \<Rightarrow> state \<Rightarrow> bool" where
  "enabled (FetchSettled fr) s = loading s"
| "enabled (SearchInput t) s = (render s = TableScreen)"
| "enabled (RowCheckbox i) s = (render s = TableScreen \<and> i \<in> set (map user_id (currentUsers s)))"
| "enabled (HeaderCheckbox c) s = (render s = TableScreen)"
| "enabled PreviousClick s = (paginationShown s \<and> \<not> previousDisabled s)"
| "enabled NextClick s = (paginationShown s \<and> \<not> nextDisabled s)"

fun handle :: "(jsstring \<Rightarrow> jsstring) \<Rightarrow> event \<Rightarrow> state \<Rightarrow> state" where
  "handle toLowerCase (FetchSettled fr) s = onFetchSettled toLowerCase fr s"
| "handle toLowerCase (SearchInput t) s = onSearchChange toLowerCase t s"
| "handle toLowerCase (RowCheckbox i) s = handleSelectUser i s"
| "handle toLowerCase (HeaderCheckbox c) s = handleSelectAll c s"
| "handle toLowerCase PreviousClick s = previousHandler s"
| "handle toLowerCase NextClick s = nextHandler s"

definition fire :: "(jsstring \<Rightarrow> jsstring) \<Rightarrow> event \<Rightarrow> state \<Rightarrow> state" where
  "fire toLowerCase e s = (if enabled e s then handle toLowerCase e s else s)"

inductive reachable :: "(jsstring \<Rightarrow> jsstring) \<Rightarrow> state \<Rightarrow> bool"
  for toLowerCase :: "jsstring \<Rightarrow> jsstring" where
  mounted: "reachable toLowerCase initial"
| event: "reachable toLowerCase s \<Longrightarrow> reachable toLowerCase (fire toLowerCase e s)"

subsection \<open>The invariant of the reachable states\<close>

text \<open>
  The filtered list is the filter of the base list by the current term; before any data
  has arrived the page is 1; the selection has no duplicates; the page is at least 1 and,
  when there are results, at most \<open>totalPages\<close>; and the table is on screen whenever data
  has arrived.
\<close>

definition invariant :: "(jsstring \<Rightarrow> jsstring) \<Rightarrow> state \<Rightarrow> bool" where
  "invariant toLowerCase s \<longleftrightarrow>
     filteredUsers s = filter (user_matches toLowerCase (searchTerm s)) (users s) \<and>
     (users s = [] \<longrightarrow> currentPage s = 1) \<and>
     distinct (selectedUsers s) \<and>
     1 \<le> currentPage s \<and>
     (filteredUsers s \<noteq> [] \<longrightarrow> currentPage s \<le> totalPages s) \<and>
     (render s \<noteq> TableScreen \<longrightarrow> users s = [])"

subsection \<open>Reading a decimal numeral back\<close>

definition read_nat :: "jsstring \<Rightarrow> nat" where
  "read_nat s = foldl (\<lambda>a c. 10 * a + (unat c - 48)) 0 s"

subsection \<open>A sample run\<close>

text \<open>
  On a string whose code units are all below 256, \<open>toLowerCase\<close> moves the letters \<open>A\<close> to
  \<open>Z\<close> (codes 65 to 90) and the accented capitals (codes 192 to 222, without the
  multiplication sign 215) up by 32 and keeps every other character. The sample run has
  only such strings, and \<open>lower_latin1\<close> stands for \<open>toLowerCase\<close> in it.
\<close>

definition lower_latin1_unit :: "code_unit \<Rightarrow> code_unit" where
  "lower_latin1_unit c =
     (if (65 \<le> c \<and> c \<le> 90) \<or> (192 \<le> c \<and> c \<le> 222 \<and> c \<noteq> 215) then c + 32 else c)"

definition lower_latin1 :: "jsstring \<Rightarrow> jsstring" where
  "lower_latin1 s = map lower_latin1_unit s"

text \<open>
  Seven records, of which four contain \<open>ro\<close> in one of the searched fields (the last name
  of 2, the username of 3, the email of 4, the first name of 5); the states reached by
  loading them, ticking the first row, going to the second page, and searching for a term
  that matches nothing.
\<close>

definition sample_user :: "int \<Rightarrow> string \<Rightarrow> string \<Rightarrow> string \<Rightarrow> string \<Rightarrow> User" where
  "sample_user i fname lname mail uname =
     \<lparr>user_id = i, firstname = utf16 fname, lastname = utf16 lname, email = utf16 mail,
      birthDate = [],
      login = \<lparr>uuid = [], username = utf16 uname, password = [], md5 = [], sha1 = [],
        registered = []\<rparr>,
      address = \<lparr>street = [], suite = [], city = [], zipcode = [], geo = \<lparr>lat = [], lng = []\<rparr>\<rparr>,
      phone = [], website = [],
      company = \<lparr>name = [], catchPhrase = [], bs = []\<rparr>\<rparr>"

definition sample_users :: "User list" where
  "sample_users =
     [sample_user 1 ''Ann'' ''Lee'' ''ann@x.io'' ''annl'',
      sample_user 2 ''Bob'' ''Roy'' ''bob@x.io'' ''bobby'',
      sample_user 3 ''Cy'' ''Dux'' ''cy@x.io'' ''hero'',
      sample_user 4 ''Di'' ''Fox'' ''pro@x.io'' ''dfox'',
      sample_user 5 ''Rob'' ''Kim'' ''rk@x.io'' ''rkim'',
      sample_user 6 ''Eve'' ''Poe'' ''eve@x.io'' ''epoe'',
      sample_user 7 ''Gus'' ''Hey'' ''gus@x.io'' ''ghey'']"

definition sample_response :: response where
  "sample_response = \<lparr>status = 200, json_result = Inr (ArrayOf sample_users)\<rparr>"

definition loaded :: state where
  "loaded = fire lower_latin1 (FetchSettled (Resolved sample_response)) initial"

definition ticked :: state where
  "ticked = fire lower_latin1 (RowCheckbox 1) loaded"

definition second_page :: state where
  "second_page = fire lower_latin1 NextClick ticked"

definition no_results :: state where
  "no_results = fire lower_latin1 (SearchInput (utf16 ''zz'')) loaded"

section \<open>Facts about the platform functions\<close>

text \<open>The scan of \<open>includes_str\<close> finds exactly the contiguous occurrences.\<close>

lemma includes_str_sublist: "includes_str s t \<longleftrightarrow> sublist t s"
  by (induction s) (simp_all add: sublist_Cons_right)

lemma set_foldl_setAdd: "set (foldl setAdd acc xs) = set acc \<union> set xs"
  by (induction xs arbitrary: acc) (auto simp: setAdd_def)

lemma distinct_foldl_setAdd: "distinct acc \<Longrightarrow> distinct (foldl setAdd acc xs)"
  by (induction xs arbitrary: acc) (auto simp: setAdd_def)

lemma foldl_setAdd_distinct: "distinct (acc @ xs) \<Longrightarrow> foldl setAdd acc xs = acc @ xs"
  by (induction xs arbitrary: acc) (auto simp: setAdd_def)

lemma filter_foldl_setAdd:
  "set xs \<subseteq> P \<Longrightarrow> filter (\<lambda>i. i \<notin> P) (foldl setAdd acc xs) = filter (\<lambda>i. i \<notin> P) acc"
  by (induction xs arbitrary: acc) (auto simp: setAdd_def)

lemma set_spreadSet: "set (spreadSet xs) = set xs"
  by (simp add: spreadSet_def set_foldl_setAdd)

lemma distinct_spreadSet: "distinct (spreadSet xs)"
  by (simp add: spreadSet_def distinct_foldl_setAdd)

lemma spreadSet_distinct: "distinct xs \<Longrightarrow> spreadSet xs = xs"
  using foldl_setAdd_distinct [of "[]" xs] by (simp add: spreadSet_def)

lemma filter_spreadSet_append:
  "filter (\<lambda>i. i \<notin> set ps) (spreadSet (sel @ ps)) = filter (\<lambda>i. i \<notin> set ps) (spreadSet sel)"
  by (simp add: spreadSet_def filter_foldl_setAdd)

text \<open>A slice that starts at a natural index is \<open>take\<close> after \<open>drop\<close>.\<close>

lemma slice_nat: "slice xs (int k) (int k + int n) = take n (drop k xs)"
proof (cases "k \<le> length xs")
  case inside: True
  show ?thesis
  proof (cases "k + n \<le> length xs")
    case True
    with inside show ?thesis by (simp add: slice_def Let_def min_def)
  next
    case False
    with inside have "nat (int (length xs) - int k) = length xs - k" by linarith
    with False inside show ?thesis by (simp add: slice_def Let_def min_def)
  qed
next
  case False
  then show ?thesis by (simp add: slice_def Let_def min_def)
qed

section \<open>Facts about the values computed on each render\<close>

lemma currentUsers_page:
  assumes "1 \<le> currentPage s"
  shows "currentUsers s = take 5 (drop (5 * nat (currentPage s - 1)) (filteredUsers s))"
proof -
  define k where "k = 5 * nat (currentPage s - 1)"
  have first: "indexOfFirstUser s = int k"
    using assms by (simp add: k_def indexOfFirstUser_def indexOfLastUser_def usersPerPage_def)
  have last: "indexOfLastUser s = int k + int 5"
    using assms by (simp add: k_def indexOfLastUser_def usersPerPage_def)
  show ?thesis
    unfolding currentUsers_def first last slice_nat k_def ..
qed

text \<open>The ceiling of the real quotient, on integers.\<close>

lemma totalPages_div: "totalPages s = (int (length (filteredUsers s)) + 4) div 5"
proof -
  have "totalPages s = \<lceil>(of_int (int (length (filteredUsers s))) :: real) / of_int 5\<rceil>"
    by (simp add: totalPages_def usersPerPage_def)
  also have "\<dots> = - (- int (length (filteredUsers s)) div 5)"
    by (rule ceiling_divide_eq_div)
  also have "\<dots> = (int (length (filteredUsers s)) + 4) div 5"
    by linarith
  finally show ?thesis .
qed

lemma totalPages_lower: "5 * (totalPages s - 1) < int (length (filteredUsers s))"
proof -
  have "5 * ((n + 4) div 5 - 1) < n" for n :: int
    by presburger
  then show ?thesis unfolding totalPages_div .
qed

lemma totalPages_upper: "int (length (filteredUsers s)) \<le> 5 * totalPages s"
  unfolding totalPages_div by linarith

lemma totalPages_empty: "filteredUsers s = [] \<Longrightarrow> totalPages s = 0"
  by (simp add: totalPages_div)

lemma totalPages_positive: "filteredUsers s \<noteq> [] \<Longrightarrow> 1 \<le> totalPages s"
  unfolding totalPages_div by (cases "filteredUsers s") simp_all

lemma includes_str_empty: "includes_str s []"
  by (simp add: includes_str_sublist)

text \<open>The empty term: \<open>toLowerCase\<close> of the empty string is the empty string.\<close>

lemma user_matches_empty: "toLowerCase [] = [] \<Longrightarrow> user_matches toLowerCase [] u"
  by (simp add: user_matches_def includes_str_empty)

section \<open>The handlers keep the invariant\<close>

lemma render_cong: "loading s' = loading s \<Longrightarrow> error s' = error s \<Longrightarrow> render s' = render s"
  by (simp add: render_def)

lemma render_loading: "loading s \<Longrightarrow> render s = LoadingScreen"
  by (simp add: render_def)

lemma totalPages_cong: "filteredUsers s' = filteredUsers s \<Longrightarrow> totalPages s' = totalPages s"
  by (simp add: totalPages_def)

lemma currentUsers_cong:
  "filteredUsers s' = filteredUsers s \<Longrightarrow> currentPage s' = currentPage s \<Longrightarrow>
   currentUsers s' = currentUsers s"
  by (simp add: currentUsers_def indexOfFirstUser_def indexOfLastUser_def)

lemma invariant_initial: "invariant toLowerCase initial"
  by (simp add: invariant_def initial_def)

lemma invariant_filterEffect:
  assumes "distinct (selectedUsers s)"
    and "users s = [] \<longrightarrow> currentPage s = 1 \<and> filteredUsers s = []"
    and "render s \<noteq> TableScreen \<longrightarrow> users s = []"
  shows "invariant toLowerCase (filterEffect toLowerCase s)"
proof (cases "users s = []")
  case True
  with assms show ?thesis by (simp add: invariant_def filterEffect_def)
next
  case False
  let ?s' = "s\<lparr>filteredUsers := filter (user_matches toLowerCase (searchTerm s)) (users s),
    currentPage := 1\<rparr>"
  have eq: "filterEffect toLowerCase s = ?s'" using False by (simp add: filterEffect_def)
  have pages: "filteredUsers ?s' \<noteq> [] \<longrightarrow> 1 \<le> totalPages ?s'"
    using totalPages_positive [of ?s'] by blast
  have screen: "render ?s' = render s" by (rule render_cong) simp_all
  from False assms pages show ?thesis
    unfolding eq invariant_def screen by simp
qed

lemma invariant_onSearchChange:
  assumes "invariant toLowerCase s"
  shows "invariant toLowerCase (onSearchChange toLowerCase t s)"
proof (cases "t = searchTerm s")
  case True
  with assms show ?thesis by (simp add: onSearchChange_def)
next
  case False
  have screen: "render (s\<lparr>searchTerm := t\<rparr>) = render s" by (rule render_cong) simp_all
  have "invariant toLowerCase (filterEffect toLowerCase (s\<lparr>searchTerm := t\<rparr>))"
    using assms by (intro invariant_filterEffect) (auto simp: invariant_def screen)
  with False show ?thesis by (simp add: onSearchChange_def)
qed

lemma fetchUsers_failure:
  assumes "fetchUsers_try fr = Inl err"
  shows "onFetchSettled toLowerCase fr s =
    s\<lparr>loading := False, error := Some (errorMessage err)\<rparr>"
  using assms by (simp add: onFetchSettled_def fetchUsers_def)

lemma fetchUsers_success:
  assumes "fetchUsers_try fr = Inr d"
  shows "onFetchSettled toLowerCase fr s =
    filterEffect toLowerCase
      (s\<lparr>error := None, users := d, filteredUsers := d, loading := False\<rparr>)"
  using assms by (simp add: onFetchSettled_def fetchUsers_def)

lemma fetchUsers_try_nonempty: "fetchUsers_try fr = Inr d \<Longrightarrow> d \<noteq> []"
  by (auto simp: fetchUsers_try_def split: fetch_result.splits sum.splits json.splits if_splits)

lemma invariant_onFetchSettled:
  assumes "invariant toLowerCase s" and "loading s"
  shows "invariant toLowerCase (onFetchSettled toLowerCase fr s)"
proof (cases "fetchUsers_try fr")
  case (Inl err)
  from assms have "users s = []" by (simp add: invariant_def render_loading)
  with assms show ?thesis
    unfolding fetchUsers_failure [OF Inl] by (simp add: invariant_def)
next
  case (Inr d)
  have "d \<noteq> []" using Inr by (rule fetchUsers_try_nonempty)
  then show ?thesis
    unfolding fetchUsers_success [OF Inr] using assms
    by (intro invariant_filterEffect) (simp_all add: invariant_def render_def)
qed

lemma invariant_handleSelectUser:
  assumes "invariant toLowerCase s"
  shows "invariant toLowerCase (handleSelectUser i s)"
proof -
  let ?s' = "handleSelectUser i s"
  have frame: "users ?s' = users s" "filteredUsers ?s' = filteredUsers s"
    "searchTerm ?s' = searchTerm s" "currentPage ?s' = currentPage s"
    "loading ?s' = loading s" "error ?s' = error s"
    by (simp_all add: handleSelectUser_def)
  have sel: "distinct (selectedUsers ?s')"
    using assms by (simp add: handleSelectUser_def invariant_def)
  from assms sel show ?thesis
    unfolding invariant_def frame totalPages_cong [OF frame(2)] render_cong [OF frame(5,6)]
    by simp
qed

lemma invariant_handleSelectAll:
  assumes "invariant toLowerCase s"
  shows "invariant toLowerCase (handleSelectAll c s)"
proof -
  let ?s' = "handleSelectAll c s"
  have frame: "users ?s' = users s" "filteredUsers ?s' = filteredUsers s"
    "searchTerm ?s' = searchTerm s" "currentPage ?s' = currentPage s"
    "loading ?s' = loading s" "error ?s' = error s"
    by (simp_all add: handleSelectAll_def Let_def)
  have sel: "distinct (selectedUsers ?s')"
    using assms by (simp add: handleSelectAll_def invariant_def Let_def distinct_spreadSet)
  from assms sel show ?thesis
    unfolding invariant_def frame totalPages_cong [OF frame(2)] render_cong [OF frame(5,6)]
    by simp
qed

lemma invariant_previousHandler:
  assumes "invariant toLowerCase s"
  shows "invariant toLowerCase (previousHandler s)"
proof -
  let ?s' = "previousHandler s"
  have frame: "users ?s' = users s" "filteredUsers ?s' = filteredUsers s"
    "searchTerm ?s' = searchTerm s" "selectedUsers ?s' = selectedUsers s"
    "loading ?s' = loading s" "error ?s' = error s"
    by (simp_all add: previousHandler_def)
  have page: "currentPage ?s' = max (currentPage s - 1) 1" by (simp add: previousHandler_def)
  from assms show ?thesis
    unfolding invariant_def frame page totalPages_cong [OF frame(2)] render_cong [OF frame(5,6)]
    by auto
qed

lemma invariant_nextHandler:
  assumes "invariant toLowerCase s" and "filteredUsers s \<noteq> []"
  shows "invariant toLowerCase (nextHandler s)"
proof -
  let ?s' = "nextHandler s"
  have frame: "users ?s' = users s" "filteredUsers ?s' = filteredUsers s"
    "searchTerm ?s' = searchTerm s" "selectedUsers ?s' = selectedUsers s"
    "loading ?s' = loading s" "error ?s' = error s"
    by (simp_all add: nextHandler_def)
  have page: "currentPage ?s' = min (currentPage s + 1) (totalPages s)"
    by (simp add: nextHandler_def)
  have "1 \<le> totalPages s" using assms(2) by (rule totalPages_positive)
  moreover have "users s \<noteq> []" using assms by (auto simp: invariant_def)
  ultimately show ?thesis using assms
    unfolding invariant_def frame page totalPages_cong [OF frame(2)] render_cong [OF frame(5,6)]
    by auto
qed

lemma invariant_fire:
  assumes "invariant toLowerCase s"
  shows "invariant toLowerCase (fire toLowerCase e s)"
proof (cases "enabled e s")
  case False
  with assms show ?thesis by (simp add: fire_def)
next
  case True
  then have "invariant toLowerCase (handle toLowerCase e s)"
    using assms
    by (cases e)
       (simp_all add: invariant_onFetchSettled invariant_onSearchChange
          invariant_handleSelectUser invariant_handleSelectAll invariant_previousHandler
          invariant_nextHandler paginationShown_def)
  with True show ?thesis by (simp add: fire_def)
qed

lemma reachable_invariant: "reachable toLowerCase s \<Longrightarrow> invariant toLowerCase s"
  by (induction rule: reachable.induct) (simp_all add: invariant_initial invariant_fire)

section \<open>Facts about the handlers\<close>

lemma user_matches_sublist:
  "user_matches toLowerCase t u \<longleftrightarrow>
     sublist (toLowerCase t) (toLowerCase (firstname u)) \<or>
     sublist (toLowerCase t) (toLowerCase (lastname u)) \<or>
     sublist (toLowerCase t) (toLowerCase (email u)) \<or>
     sublist (toLowerCase t) (toLowerCase (username (login u)))"
  by (simp add: user_matches_def Let_def includes_str_sublist)

lemma onSearchChange_frame:
  "searchTerm (onSearchChange toLowerCase t s) = t"
  "users (onSearchChange toLowerCase t s) = users s"
  by (simp_all add: onSearchChange_def filterEffect_def)

lemma utf16_nonempty: "utf16 (c # s) \<noteq> []"
  by (simp add: utf16_def)

lemma includes_str_append: "includes_str (a @ b) b"
  by (simp add: includes_str_sublist)

lemma unat_digit_unit: "d < 10 \<Longrightarrow> unat (digit_unit d) = 48 + d"
  unfolding digit_unit_def unat_of_nat by simp

lemma read_nat_show_nat: "read_nat (show_nat n) = n"
proof (induction n rule: show_nat.induct)
  case (1 n)
  show ?case
  proof (cases "n < 10")
    case True
    then show ?thesis by (simp add: show_nat.simps [of n] read_nat_def unat_digit_unit)
  next
    case False
    with 1 have "read_nat (show_nat (n div 10)) = n div 10" by simp
    with False show ?thesis
      by (simp add: show_nat.simps [of n] read_nat_def unat_digit_unit)
  qed
qed

lemma handleSelectUser_selected:
  "selectedUsers (handleSelectUser i s) =
     (if i \<in> set (selectedUsers s) then filter (\<lambda>j. j \<noteq> i) (selectedUsers s)
      else selectedUsers s @ [i])"
  by (simp add: handleSelectUser_def)

lemma handleSelectAll_checked:
  "selectedUsers (handleSelectAll True s) =
     spreadSet (selectedUsers s @ map user_id (currentUsers s))"
  by (simp add: handleSelectAll_def)

lemma handleSelectAll_unchecked:
  "selectedUsers (handleSelectAll False s) =
     filter (\<lambda>i. i \<notin> set (map user_id (currentUsers s))) (selectedUsers s)"
  by (simp add: handleSelectAll_def)

lemma handleSelectAll_frame:
  "filteredUsers (handleSelectAll c s) = filteredUsers s"
  "currentPage (handleSelectAll c s) = currentPage s"
  "(handleSelectAll c s)\<lparr>selectedUsers := selectedUsers s\<rparr> = s"
  by (simp_all add: handleSelectAll_def Let_def)

lemma handleSelectAll_currentUsers: "currentUsers (handleSelectAll c s) = currentUsers s"
  by (rule currentUsers_cong) (simp_all add: handleSelectAll_frame)

section \<open>The sample run\<close>

lemma reachable_loaded: "reachable lower_latin1 loaded"
  unfolding loaded_def by (intro reachable.intros)

lemma reachable_ticked: "reachable lower_latin1 ticked"
  unfolding ticked_def by (intro reachable.intros reachable_loaded)

lemma reachable_second_page: "reachable lower_latin1 second_page"
  unfolding second_page_def by (intro reachable.intros reachable_ticked)

lemma reachable_no_results: "reachable lower_latin1 no_results"
  unfolding no_results_def by (intro reachable.intros reachable_loaded)

lemma loaded_facts:
  "render loaded = TableScreen" "filteredUsers loaded = sample_users"
  "currentPage loaded = 1" "totalPages loaded = 2"
  by code_simp+

lemma ticked_facts:
  "selectedUsers ticked = [1]" "map user_id (currentUsers ticked) = [1, 2, 3, 4, 5]"
  by code_simp+

lemma second_page_facts:
  "selectedUsers second_page = [1]" "map user_id (currentUsers second_page) = [6, 7]"
  "currentPage second_page = 2" "totalPages second_page = 2"
  "length (filteredUsers second_page) = 7" "searchTerm second_page = []"
  by code_simp+

lemma no_results_facts:
  "render no_results = TableScreen" "filteredUsers no_results = []"
  "currentPage no_results = 1"
  by code_simp+

section \<open>The claims of the specification\<close>

subsection \<open>C1: the filtered list\<close>

text \<open>
  Claim C1. In every reachable state the filtered list is the base list filtered, in
  base-list order, by \<open>user_matches\<close> of the current search term; a record matches
  exactly when the lowercased term occurs as a contiguous piece of its lowercased first
  name, last name, email or username, where lowercasing is the platform's \<open>toLowerCase\<close>,
  whatever it computes; the empty term, whose lowercasing is empty, matches every
  record; so the filtered list is a subsequence and a subset of the base list. Typing a
  term \<open>t\<close> into the search box of the table leaves exactly the records of the base list
  that match \<open>t\<close>.
\<close>

theorem filteredUsers_exact:
  assumes "reachable toLowerCase s"
  shows "filteredUsers s = filter (user_matches toLowerCase (searchTerm s)) (users s) \<and>
         (user_matches toLowerCase t u \<longleftrightarrow>
            sublist (toLowerCase t) (toLowerCase (firstname u)) \<or>
            sublist (toLowerCase t) (toLowerCase (lastname u)) \<or>
            sublist (toLowerCase t) (toLowerCase (email u)) \<or>
            sublist (toLowerCase t) (toLowerCase (username (login u)))) \<and>
         (toLowerCase [] = [] \<longrightarrow> user_matches toLowerCase [] u) \<and>
         subseq (filteredUsers s) (users s) \<and>
         set (filteredUsers s) \<subseteq> set (users s) \<and>
         (render s = TableScreen \<longrightarrow>
            filteredUsers (fire toLowerCase (SearchInput t) s) =
              filter (user_matches toLowerCase t) (users s))"
proof -
  have inv: "filteredUsers s = filter (user_matches toLowerCase (searchTerm s)) (users s)"
    using reachable_invariant [OF assms] by (simp add: invariant_def)
  have after: "filteredUsers (fire toLowerCase (SearchInput t) s) =
      filter (user_matches toLowerCase t) (users s)"
    if "render s = TableScreen"
  proof -
    have step: "fire toLowerCase (SearchInput t) s = onSearchChange toLowerCase t s"
      using that by (simp add: fire_def)
    have "reachable toLowerCase (onSearchChange toLowerCase t s)"
      using reachable.event [OF assms, of "SearchInput t"] by (simp add: step)
    then have "invariant toLowerCase (onSearchChange toLowerCase t s)"
      by (rule reachable_invariant)
    then show ?thesis
      unfolding step by (simp add: invariant_def onSearchChange_frame)
  qed
  have sub: "subseq (filteredUsers s) (users s)" unfolding inv by simp
  have mem: "set (filteredUsers s) \<subseteq> set (users s)" unfolding inv by auto
  have none: "user_matches toLowerCase [] u" if "toLowerCase [] = []"
    using that by (rule user_matches_empty)
  from inv after sub mem none user_matches_sublist [of toLowerCase t u]
  show ?thesis by blast
qed

text \<open>
  The sample run, searching for \<open>RO\<close>: the records 2, 3, 4 and 5 remain, in that order.
  A record with the first name \<open>Emile\<close>, written with a capital E acute (code 201),
  matches the term made of the small e acute (code 233).
\<close>

theorem filteredUsers_exact_witness:
  "reachable lower_latin1 (fire lower_latin1 (SearchInput (utf16 ''RO'')) loaded) \<and>
   render loaded = TableScreen \<and>
   lower_latin1 [] = [] \<and>
   filteredUsers (fire lower_latin1 (SearchInput (utf16 ''RO'')) loaded) =
     filter (user_matches lower_latin1 (utf16 ''RO'')) sample_users \<and>
   map user_id (filteredUsers (fire lower_latin1 (SearchInput (utf16 ''RO'')) loaded)) =
     [2, 3, 4, 5] \<and>
   user_matches lower_latin1 (utf16 ''RO'') (sample_user 3 ''Cy'' ''Dux'' ''cy@x.io'' ''hero'') \<and>
   sublist (lower_latin1 (utf16 ''RO'')) (lower_latin1 (utf16 ''hero'')) \<and>
   user_matches lower_latin1 [233]
     (sample_user 8 (CHR 0xC9 # ''mile'') ''Zola'' ''ez@x.io'' ''ezola'') \<and>
   filteredUsers loaded = sample_users"
proof -
  let ?typed = "fire lower_latin1 (SearchInput (utf16 ''RO'')) loaded"
  have r: "reachable lower_latin1 ?typed"
    by (intro reachable.intros reachable_loaded)
  have screen: "render loaded = TableScreen" by (rule loaded_facts)
  have empty: "lower_latin1 [] = []" by (simp add: lower_latin1_def)
  have typed: "searchTerm ?typed = utf16 ''RO''" by code_simp
  have base: "users ?typed = sample_users" by code_simp
  have ids: "map user_id (filter (user_matches lower_latin1 (utf16 ''RO'')) sample_users) =
      [2, 3, 4, 5]"
    by code_simp
  have hit: "user_matches lower_latin1 (utf16 ''RO'')
      (sample_user 3 ''Cy'' ''Dux'' ''cy@x.io'' ''hero'')"
    by code_simp
  have occ: "sublist (lower_latin1 (utf16 ''RO'')) (lower_latin1 (utf16 ''hero''))" by code_simp
  have accent: "user_matches lower_latin1 [233]
      (sample_user 8 (CHR 0xC9 # ''mile'') ''Zola'' ''ez@x.io'' ''ezola'')"
    by code_simp
  have all: "filteredUsers loaded = sample_users" by (rule loaded_facts)
  from filteredUsers_exact [OF r, where t = "utf16 ''RO''"
      and u = "sample_user 3 ''Cy'' ''Dux'' ''cy@x.io'' ''hero''"]
  have "filteredUsers ?typed = filter (user_matches lower_latin1 (utf16 ''RO'')) sample_users"
    unfolding typed base by blast
  with r screen empty ids hit occ accent all show ?thesis by simp
qed

subsection \<open>C2: a new search term resets the page\<close>

text \<open>
  Claim C2. In every reachable state, changing the search term to a different value runs
  the filter effect and leaves \<open>currentPage\<close> at 1, both for the handler with its effect
  and for the event on the search box.
\<close>

theorem search_change_resets_page:
  assumes "reachable toLowerCase s" and "t \<noteq> searchTerm s"
  shows "currentPage (onSearchChange toLowerCase t s) = 1 \<and>
         currentPage (fire toLowerCase (SearchInput t) s) = 1"
proof -
  have inv: "invariant toLowerCase s" using assms(1) by (rule reachable_invariant)
  have handler: "currentPage (onSearchChange toLowerCase t s) = 1"
    using inv assms(2) by (simp add: onSearchChange_def filterEffect_def invariant_def)
  have "currentPage (fire toLowerCase (SearchInput t) s) = 1"
  proof (cases "render s = TableScreen")
    case True
    with handler show ?thesis by (simp add: fire_def)
  next
    case False
    with inv have "currentPage s = 1" by (simp add: invariant_def)
    with False show ?thesis by (simp add: fire_def)
  qed
  with handler show ?thesis ..
qed

text \<open>
  The sample run on its second page: typing \<open>b\<close> brings the page back to 1.
\<close>

theorem search_change_resets_page_witness:
  "reachable lower_latin1 second_page \<and> utf16 ''b'' \<noteq> searchTerm second_page \<and>
   currentPage second_page = 2 \<and>
   currentPage (onSearchChange lower_latin1 (utf16 ''b'') second_page) = 1 \<and>
   currentPage (fire lower_latin1 (SearchInput (utf16 ''b'')) second_page) = 1"
proof -
  have differs: "utf16 ''b'' \<noteq> searchTerm second_page"
    unfolding second_page_facts by (simp add: utf16_def)
  from search_change_resets_page [OF reachable_second_page differs] reachable_second_page
    differs second_page_facts(3)
  show ?thesis by simp
qed

subsection \<open>C3: select all on the page, then unselect all\<close>

text \<open>
  Claim C3, as amended. Ticking and then unticking the header checkbox on the same page
  leaves the prior selection with every id of the current page removed: as a set always,
  and as a list, in the prior order, when the prior selection has no duplicates (every
  reachable selection). The prior selection is restored exactly when none of its ids is
  on the current page.
\<close>

theorem select_all_then_none:
  "set (selectedUsers (handleSelectAll False (handleSelectAll True s))) =
     set (selectedUsers s) - set (map user_id (currentUsers s)) \<and>
   (set (selectedUsers (handleSelectAll False (handleSelectAll True s))) = set (selectedUsers s) \<longleftrightarrow>
      set (selectedUsers s) \<inter> set (map user_id (currentUsers s)) = {}) \<and>
   (distinct (selectedUsers s) \<longrightarrow>
      selectedUsers (handleSelectAll False (handleSelectAll True s)) =
        filter (\<lambda>i. i \<notin> set (map user_id (currentUsers s))) (selectedUsers s) \<and>
      (selectedUsers (handleSelectAll False (handleSelectAll True s)) = selectedUsers s \<longleftrightarrow>
         set (selectedUsers s) \<inter> set (map user_id (currentUsers s)) = {}))"
proof -
  let ?page = "map user_id (currentUsers s)"
  let ?after = "selectedUsers (handleSelectAll False (handleSelectAll True s))"
  have general: "?after = filter (\<lambda>i. i \<notin> set ?page) (spreadSet (selectedUsers s))"
    unfolding handleSelectAll_unchecked handleSelectAll_currentUsers handleSelectAll_checked
    by (rule filter_spreadSet_append)
  have members: "set ?after = set (selectedUsers s) - set ?page"
    unfolding general by (auto simp: set_spreadSet)
  have same_set: "set ?after = set (selectedUsers s) \<longleftrightarrow> set (selectedUsers s) \<inter> set ?page = {}"
    unfolding members by blast
  have listed: "?after = filter (\<lambda>i. i \<notin> set ?page) (selectedUsers s) \<and>
      (?after = selectedUsers s \<longleftrightarrow> set (selectedUsers s) \<inter> set ?page = {})"
    if nodup: "distinct (selectedUsers s)"
  proof -
    have result: "?after = filter (\<lambda>i. i \<notin> set ?page) (selectedUsers s)"
      unfolding general using nodup by (simp add: spreadSet_distinct)
    have "filter (\<lambda>i. i \<notin> set ?page) (selectedUsers s) = selectedUsers s \<longleftrightarrow>
        set (selectedUsers s) \<inter> set ?page = {}"
      unfolding filter_id_conv by blast
    with result show ?thesis by simp
  qed
  from members same_set listed show ?thesis by blast
qed

text \<open>
  The claim as first stated, that the pair of calls restores the prior selection, fails
  in the sample run after the first row has been ticked: id 1 is selected and on the
  page, ticking the header selects 1 to 5, and unticking it leaves nothing selected.
\<close>

theorem select_all_roundtrip_counterexample:
  "reachable lower_latin1 ticked \<and>
   selectedUsers ticked = [1] \<and>
   map user_id (currentUsers ticked) = [1, 2, 3, 4, 5] \<and>
   selectedUsers (handleSelectAll True ticked) = [1, 2, 3, 4, 5] \<and>
   selectedUsers (handleSelectAll False (handleSelectAll True ticked)) = [] \<and>
   set (selectedUsers (handleSelectAll False (handleSelectAll True ticked))) \<noteq>
     set (selectedUsers ticked)"
proof -
  have a: "selectedUsers ticked = [1]" by (rule ticked_facts)
  have b: "map user_id (currentUsers ticked) = [1, 2, 3, 4, 5]" by (rule ticked_facts)
  have c: "selectedUsers (handleSelectAll True ticked) = [1, 2, 3, 4, 5]" by code_simp
  have d: "selectedUsers (handleSelectAll False (handleSelectAll True ticked)) = []" by code_simp
  from reachable_ticked a b c d show ?thesis by simp
qed

text \<open>
  The amended claim in the sample run: on the first page, where id 1 was selected, the
  pair of calls empties the selection; on the second page, where no shown id was
  selected, it restores the selection.
\<close>

theorem select_all_then_none_witness:
  "distinct (selectedUsers ticked) \<and>
   set (selectedUsers ticked) \<inter> set (map user_id (currentUsers ticked)) = {1} \<and>
   selectedUsers (handleSelectAll False (handleSelectAll True ticked)) = [] \<and>
   distinct (selectedUsers second_page) \<and>
   set (selectedUsers second_page) \<inter> set (map user_id (currentUsers second_page)) = {} \<and>
   selectedUsers (handleSelectAll False (handleSelectAll True second_page)) =
     selectedUsers second_page"
proof -
  have first: "distinct (selectedUsers ticked)" unfolding ticked_facts by simp
  have second: "distinct (selectedUsers second_page)" unfolding second_page_facts by simp
  from select_all_then_none [of ticked] select_all_then_none [of second_page] first second
  show ?thesis unfolding ticked_facts second_page_facts by simp
qed

subsection \<open>C4: a body that is not a non-empty array\<close>

text \<open>
  Claim C4, as amended. When the fetch resolves with an ok response whose body parses to
  a value that is not an array, or to the empty array, the component stops loading and
  shows the error screen with the message \<open>Invalid data format received from API\<close>.
  When the body does not parse, \<open>response.json()\<close> rejects and the error cell holds the
  message of the error it throws, which is on the error screen when it is not empty. In
  each of these cases the base list and the filtered list keep their values.
\<close>

theorem malformed_data_error:
  assumes "ok r"
    and "json_result r = Inr NotAnArray \<or> json_result r = Inr (ArrayOf []) \<or>
         json_result r = Inl e"
  shows "loading (onFetchSettled toLowerCase (Resolved r) s) = False \<and>
         users (onFetchSettled toLowerCase (Resolved r) s) = users s \<and>
         filteredUsers (onFetchSettled toLowerCase (Resolved r) s) = filteredUsers s \<and>
         (json_result r = Inr NotAnArray \<or> json_result r = Inr (ArrayOf []) \<longrightarrow>
            error (onFetchSettled toLowerCase (Resolved r) s) = Some (utf16 ''Invalid data format received from API'') \<and>
            render (onFetchSettled toLowerCase (Resolved r) s) = ErrorScreen (utf16 ''Invalid data format received from API'')) \<and>
         (json_result r = Inl e \<longrightarrow>
            error (onFetchSettled toLowerCase (Resolved r) s) = Some (errorMessage e) \<and>
            (errorMessage e \<noteq> [] \<longrightarrow>
               render (onFetchSettled toLowerCase (Resolved r) s) = ErrorScreen (errorMessage e)))"
proof -
  let ?s' = "onFetchSettled toLowerCase (Resolved r) s"
  have format: "fetchUsers_try (Resolved r) = Inl (ErrorObject (utf16 ''Invalid data format received from API''))"
    if "json_result r = Inr NotAnArray \<or> json_result r = Inr (ArrayOf [])"
    using assms(1) that by (auto simp: fetchUsers_try_def)
  have parse: "fetchUsers_try (Resolved r) = Inl e" if "json_result r = Inl e"
    using assms(1) that by (simp add: fetchUsers_try_def)
  from assms(2) format parse obtain err where thrown: "fetchUsers_try (Resolved r) = Inl err"
    by blast
  have frame: "loading ?s' = False" "users ?s' = users s" "filteredUsers ?s' = filteredUsers s"
    unfolding fetchUsers_failure [OF thrown] by simp_all
  have fixed: "error ?s' = Some (utf16 ''Invalid data format received from API'') \<and> render ?s' = ErrorScreen (utf16 ''Invalid data format received from API'')"
    if "json_result r = Inr NotAnArray \<or> json_result r = Inr (ArrayOf [])"
    unfolding fetchUsers_failure [OF format [OF that]]
    by (simp add: render_def errorMessage_def utf16_def)
  have parser: "error ?s' = Some (errorMessage e) \<and>
      (errorMessage e \<noteq> [] \<longrightarrow> render ?s' = ErrorScreen (errorMessage e))"
    if "json_result r = Inl e"
    unfolding fetchUsers_failure [OF parse [OF that]] by (simp add: render_def)
  from frame fixed parser show ?thesis by blast
qed

text \<open>
  The claim as first stated covers every ok response whose body is not a non-empty array.
  It fails for an ok response with an empty body: \<open>response.json()\<close> rejects with a syntax
  error, and the error screen shows that error's message, not the data-format message.
\<close>

theorem unparsed_body_counterexample:
  "ok \<lparr>status = 200, json_result = Inl (ErrorObject (utf16 ''Unexpected end of JSON input''))\<rparr> \<and>
   render (onFetchSettled lower_latin1
      (Resolved \<lparr>status = 200,
         json_result = Inl (ErrorObject (utf16 ''Unexpected end of JSON input''))\<rparr>) initial) =
     ErrorScreen (utf16 ''Unexpected end of JSON input'') \<and>
   error (onFetchSettled lower_latin1
      (Resolved \<lparr>status = 200,
         json_result = Inl (ErrorObject (utf16 ''Unexpected end of JSON input''))\<rparr>) initial) \<noteq>
     Some (utf16 ''Invalid data format received from API'')"
  by code_simp

text \<open>
  On mount: the body \<open>[]\<close>, a body that is not an array, and a body that does not parse.
\<close>

theorem malformed_data_error_witness:
  "ok \<lparr>status = 200, json_result = Inr (ArrayOf [])\<rparr> \<and>
   render (onFetchSettled lower_latin1
      (Resolved \<lparr>status = 200, json_result = Inr (ArrayOf [])\<rparr>) initial) =
     ErrorScreen (utf16 ''Invalid data format received from API'') \<and>
   users (onFetchSettled lower_latin1
      (Resolved \<lparr>status = 200, json_result = Inr (ArrayOf [])\<rparr>) initial) = [] \<and>
   filteredUsers (onFetchSettled lower_latin1
      (Resolved \<lparr>status = 200, json_result = Inr (ArrayOf [])\<rparr>) initial) = [] \<and>
   ok \<lparr>status = 204, json_result = Inr NotAnArray\<rparr> \<and>
   error (onFetchSettled lower_latin1
      (Resolved \<lparr>status = 204, json_result = Inr NotAnArray\<rparr>) initial) =
     Some (utf16 ''Invalid data format received from API'') \<and>
   ok \<lparr>status = 200, json_result = Inl (ErrorObject (utf16 ''Unexpected end of JSON input''))\<rparr> \<and>
   errorMessage (ErrorObject (utf16 ''Unexpected end of JSON input'')) \<noteq> [] \<and>
   render (onFetchSettled lower_latin1
      (Resolved \<lparr>status = 200,
         json_result = Inl (ErrorObject (utf16 ''Unexpected end of JSON input''))\<rparr>) initial) =
     ErrorScreen (utf16 ''Unexpected end of JSON input'')"
proof -
  let ?empty = "\<lparr>status = 200, json_result = Inr (ArrayOf [])\<rparr>"
  let ?object = "\<lparr>status = 204, json_result = Inr NotAnArray\<rparr>"
  let ?err = "ErrorObject (utf16 ''Unexpected end of JSON input'')"
  let ?broken = "\<lparr>status = 200, json_result = Inl ?err\<rparr>"
  have ok1: "ok ?empty" and ok2: "ok ?object" and ok3: "ok ?broken"
    by (simp_all add: ok_def)
  have body1: "json_result ?empty = Inr NotAnArray \<or> json_result ?empty = Inr (ArrayOf []) \<or>
      json_result ?empty = Inl ?err"
    by simp
  have body2: "json_result ?object = Inr NotAnArray \<or> json_result ?object = Inr (ArrayOf []) \<or>
      json_result ?object = Inl ?err"
    by simp
  have body3: "json_result ?broken = Inr NotAnArray \<or> json_result ?broken = Inr (ArrayOf []) \<or>
      json_result ?broken = Inl ?err"
    by simp
  have message: "errorMessage ?err \<noteq> []" by (simp add: errorMessage_def utf16_def)
  from malformed_data_error [OF ok1 body1, where s = initial and toLowerCase = lower_latin1]
    malformed_data_error [OF ok2 body2, where s = initial and toLowerCase = lower_latin1]
    malformed_data_error [OF ok3 body3, where s = initial and toLowerCase = lower_latin1]
    ok1 ok2 ok3 message
  show ?thesis by (simp add: initial_def errorMessage_def)
qed

subsection \<open>C5: the page window\<close>

text \<open>
  Claim C5. For a page between 1 and \<open>totalPages\<close>, where \<open>totalPages\<close> is the ceiling
  of the filtered count over the page size 5, the rows shown are the filtered list from
  index \<open>(currentPage - 1) * 5\<close> up to, not including, \<open>currentPage * 5\<close> or the end of
  the list, whichever comes first; there are at most 5 of them, and on the last page
  there are \<open>filteredCount - 5 * (totalPages - 1)\<close>.
\<close>

theorem page_window:
  assumes "1 \<le> currentPage s" and "currentPage s \<le> totalPages s"
  shows "indexOfFirstUser s = (currentPage s - 1) * usersPerPage \<and>
         indexOfLastUser s = currentPage s * usersPerPage \<and>
         usersPerPage = 5 \<and>
         totalPages s = \<lceil>real (length (filteredUsers s)) / real_of_int usersPerPage\<rceil> \<and>
         currentUsers s =
           take (nat (min (indexOfLastUser s) (int (length (filteredUsers s))) - indexOfFirstUser s))
             (drop (nat (indexOfFirstUser s)) (filteredUsers s)) \<and>
         int (length (currentUsers s)) \<le> usersPerPage \<and>
         (currentPage s = totalPages s \<longrightarrow>
            int (length (currentUsers s)) =
              int (length (filteredUsers s)) - usersPerPage * (totalPages s - 1))"
proof -
  let ?n = "int (length (filteredUsers s))"
  have first: "indexOfFirstUser s = (currentPage s - 1) * usersPerPage"
    by (simp add: indexOfFirstUser_def indexOfLastUser_def algebra_simps)
  have last: "indexOfLastUser s = currentPage s * usersPerPage"
    by (simp add: indexOfLastUser_def)
  have size: "usersPerPage = 5" by (simp add: usersPerPage_def)
  have pages: "totalPages s = \<lceil>real (length (filteredUsers s)) / real_of_int usersPerPage\<rceil>"
    by (simp add: totalPages_def)
  have page: "currentUsers s = take 5 (drop (5 * nat (currentPage s - 1)) (filteredUsers s))"
    using assms(1) by (rule currentUsers_page)
  have start: "nat (indexOfFirstUser s) = 5 * nat (currentPage s - 1)"
    using assms(1) unfolding first size by simp
  have below: "indexOfFirstUser s < ?n"
    using assms totalPages_lower [of s] unfolding first size by simp
  have len: "int (length (currentUsers s)) = min (indexOfLastUser s) ?n - indexOfFirstUser s"
    using assms(1) below unfolding page first last size by (simp add: min_def) linarith
  have window: "currentUsers s =
      take (nat (min (indexOfLastUser s) ?n - indexOfFirstUser s))
        (drop (nat (indexOfFirstUser s)) (filteredUsers s))"
  proof (cases "indexOfLastUser s \<le> ?n")
    case True
    then show ?thesis unfolding page start by (simp add: first last size)
  next
    case False
    then have "nat (min (indexOfLastUser s) ?n - indexOfFirstUser s) =
        length (drop (nat (indexOfFirstUser s)) (filteredUsers s))"
      using below assms(1) unfolding first size by simp
    moreover have "length (drop (5 * nat (currentPage s - 1)) (filteredUsers s)) \<le> 5"
      using False assms(1) unfolding last size by simp
    ultimately show ?thesis unfolding page start by simp
  qed
  have bound: "int (length (currentUsers s)) \<le> usersPerPage"
    unfolding page size by simp
  have lastpage: "int (length (currentUsers s)) = ?n - usersPerPage * (totalPages s - 1)"
    if "currentPage s = totalPages s"
    using that totalPages_upper [of s] unfolding len first last size by (simp add: min_def)
  from first last size pages window bound lastpage show ?thesis by blast
qed

text \<open>
  The sample run on its second and last page: seven records, two of them shown.
\<close>

theorem page_window_witness:
  "1 \<le> currentPage second_page \<and> currentPage second_page \<le> totalPages second_page \<and>
   currentPage second_page = 2 \<and> totalPages second_page = 2 \<and>
   length (filteredUsers second_page) = 7 \<and>
   map user_id (currentUsers second_page) = [6, 7] \<and>
   int (length (currentUsers second_page)) =
     int (length (filteredUsers second_page)) - usersPerPage * (totalPages second_page - 1) \<and>
   int (length (currentUsers second_page)) \<le> usersPerPage"
proof -
  have lo: "1 \<le> currentPage second_page" unfolding second_page_facts by simp
  have hi: "currentPage second_page \<le> totalPages second_page" unfolding second_page_facts by simp
  have final: "currentPage second_page = totalPages second_page" unfolding second_page_facts ..
  from page_window [OF lo hi] final
  have "int (length (currentUsers second_page)) =
      int (length (filteredUsers second_page)) - usersPerPage * (totalPages second_page - 1) \<and>
    int (length (currentUsers second_page)) \<le> usersPerPage"
    by blast
  with lo hi second_page_facts show ?thesis by blast
qed

subsection \<open>C6: toggling one row\<close>

text \<open>
  Claim C6. Toggling an id adds it to the selection when it is absent and removes it when
  it is present; a selection without duplicates stays without duplicates; and toggling
  the same id twice gives back the prior selection set (the same ids, and as many of
  them), with the rest of the state untouched.
\<close>

theorem toggle_involution:
  "set (selectedUsers (handleSelectUser i s)) =
     (if i \<in> set (selectedUsers s) then set (selectedUsers s) - {i}
      else insert i (set (selectedUsers s))) \<and>
   (distinct (selectedUsers s) \<longrightarrow> distinct (selectedUsers (handleSelectUser i s))) \<and>
   set (selectedUsers (handleSelectUser i (handleSelectUser i s))) = set (selectedUsers s) \<and>
   (distinct (selectedUsers s) \<longrightarrow>
      length (selectedUsers (handleSelectUser i (handleSelectUser i s))) = length (selectedUsers s)) \<and>
   (handleSelectUser i (handleSelectUser i s))\<lparr>selectedUsers := selectedUsers s\<rparr> = s"
proof -
  have once: "set (selectedUsers (handleSelectUser i s)) =
     (if i \<in> set (selectedUsers s) then set (selectedUsers s) - {i}
      else insert i (set (selectedUsers s)))"
    by (auto simp: handleSelectUser_selected)
  have nodup: "distinct (selectedUsers (handleSelectUser i s))" if "distinct (selectedUsers s)"
    using that by (simp add: handleSelectUser_selected)
  have twice: "set (selectedUsers (handleSelectUser i (handleSelectUser i s))) = set (selectedUsers s)"
    by (auto simp: handleSelectUser_selected)
  have size: "length (selectedUsers (handleSelectUser i (handleSelectUser i s))) = length (selectedUsers s)"
    if "distinct (selectedUsers s)"
  proof -
    from that nodup have "distinct (selectedUsers (handleSelectUser i (handleSelectUser i s)))"
      using handleSelectUser_selected by (simp add: handleSelectUser_selected)
    then show ?thesis
      using that twice by (metis distinct_card)
  qed
  have rest: "(handleSelectUser i (handleSelectUser i s))\<lparr>selectedUsers := selectedUsers s\<rparr> = s"
    by (simp add: handleSelectUser_def)
  from once nodup twice size rest show ?thesis by blast
qed

text \<open>
  The sample run with row 1 ticked: toggling 1 and toggling 2, once and twice.
\<close>

theorem toggle_involution_witness:
  "distinct (selectedUsers ticked) \<and> selectedUsers ticked = [1] \<and>
   set (selectedUsers (handleSelectUser 1 ticked)) = {} \<and>
   set (selectedUsers (handleSelectUser 2 ticked)) = {1, 2} \<and>
   distinct (selectedUsers (handleSelectUser 2 ticked)) \<and>
   set (selectedUsers (handleSelectUser 1 (handleSelectUser 1 ticked))) = {1} \<and>
   set (selectedUsers (handleSelectUser 2 (handleSelectUser 2 ticked))) = {1}"
proof -
  have sel: "selectedUsers ticked = [1]" by (rule ticked_facts)
  have nodup: "distinct (selectedUsers ticked)" unfolding sel by simp
  from toggle_involution [of 1 ticked] toggle_involution [of 2 ticked] nodup sel
  show ?thesis by auto
qed

subsection \<open>C7: the header checkbox\<close>

text \<open>
  Claim C7. Ticking the header checkbox makes the selection the union, without
  duplicates, of the prior selection and the ids of the current page; unticking it
  removes the ids of the current page and nothing else, keeping the other selected ids
  in their order. Neither changes the page shown or any other part of the state.
\<close>

theorem select_all_frame:
  "set (selectedUsers (handleSelectAll True s)) =
     set (selectedUsers s) \<union> set (map user_id (currentUsers s)) \<and>
   distinct (selectedUsers (handleSelectAll True s)) \<and>
   selectedUsers (handleSelectAll False s) =
     filter (\<lambda>i. i \<notin> set (map user_id (currentUsers s))) (selectedUsers s) \<and>
   set (selectedUsers (handleSelectAll False s)) =
     set (selectedUsers s) - set (map user_id (currentUsers s)) \<and>
   currentUsers (handleSelectAll c s) = currentUsers s \<and>
   (handleSelectAll c s)\<lparr>selectedUsers := selectedUsers s\<rparr> = s"
proof -
  have union: "set (selectedUsers (handleSelectAll True s)) =
      set (selectedUsers s) \<union> set (map user_id (currentUsers s))"
    unfolding handleSelectAll_checked set_spreadSet by simp
  have nodup: "distinct (selectedUsers (handleSelectAll True s))"
    unfolding handleSelectAll_checked by (rule distinct_spreadSet)
  have removed: "set (selectedUsers (handleSelectAll False s)) =
      set (selectedUsers s) - set (map user_id (currentUsers s))"
    unfolding handleSelectAll_unchecked by auto
  from union nodup removed handleSelectAll_unchecked [of s]
    handleSelectAll_currentUsers [of c s] handleSelectAll_frame(3)
  show ?thesis by blast
qed

text \<open>
  The sample run on its second page, with id 1 selected from the first page.
\<close>

theorem select_all_frame_witness:
  "selectedUsers second_page = [1] \<and> map user_id (currentUsers second_page) = [6, 7] \<and>
   set (selectedUsers (handleSelectAll True second_page)) = {1, 6, 7} \<and>
   distinct (selectedUsers (handleSelectAll True second_page)) \<and>
   selectedUsers (handleSelectAll False second_page) = [1]"
proof -
  from select_all_frame [of second_page True] second_page_facts
  show ?thesis by auto
qed

subsection \<open>C8: Previous and Next\<close>

text \<open>
  Claim C8. With at least one page and the current page between 1 and \<open>totalPages\<close>,
  Previous changes nothing on page 1 and otherwise goes back one page, Next changes
  nothing on the last page and otherwise goes forward one page, the page stays between
  1 and \<open>totalPages\<close>, and on the table screen a click on either button does what its
  handler does.
\<close>

theorem previous_next_clamped:
  assumes "1 \<le> totalPages s" and "1 \<le> currentPage s" and "currentPage s \<le> totalPages s"
  shows "previousHandler s = (if currentPage s = 1 then s else s\<lparr>currentPage := currentPage s - 1\<rparr>) \<and>
         nextHandler s =
           (if currentPage s = totalPages s then s else s\<lparr>currentPage := currentPage s + 1\<rparr>) \<and>
         1 \<le> currentPage (previousHandler s) \<and> currentPage (previousHandler s) \<le> totalPages s \<and>
         1 \<le> currentPage (nextHandler s) \<and> currentPage (nextHandler s) \<le> totalPages s \<and>
         totalPages (previousHandler s) = totalPages s \<and>
         totalPages (nextHandler s) = totalPages s \<and>
         (render s = TableScreen \<longrightarrow>
            fire toLowerCase PreviousClick s = previousHandler s \<and>
            fire toLowerCase NextClick s = nextHandler s)"
proof -
  have prev: "previousHandler s = (if currentPage s = 1 then s else s\<lparr>currentPage := currentPage s - 1\<rparr>)"
    using assms(2) by (simp add: previousHandler_def max_def)
  have nxt: "nextHandler s =
      (if currentPage s = totalPages s then s else s\<lparr>currentPage := currentPage s + 1\<rparr>)"
    using assms(3) by (simp add: nextHandler_def min_def)
  have range: "1 \<le> currentPage (previousHandler s)" "currentPage (previousHandler s) \<le> totalPages s"
    "1 \<le> currentPage (nextHandler s)" "currentPage (nextHandler s) \<le> totalPages s"
    using assms by (simp_all add: previousHandler_def nextHandler_def)
  have pages: "totalPages (previousHandler s) = totalPages s" "totalPages (nextHandler s) = totalPages s"
    by (rule totalPages_cong, simp add: previousHandler_def)
       (rule totalPages_cong, simp add: nextHandler_def)
  have shown: "filteredUsers s \<noteq> []"
    using assms(1) totalPages_empty [of s] by auto
  have clicks: "fire toLowerCase PreviousClick s = previousHandler s \<and>
      fire toLowerCase NextClick s = nextHandler s"
    if "render s = TableScreen"
    using that shown prev nxt
    by (simp add: fire_def paginationShown_def previousDisabled_def nextDisabled_def)
  from prev nxt range pages clicks show ?thesis by blast
qed

text \<open>
  The sample run on its first page and on its second, last page.
\<close>

theorem previous_next_clamped_witness:
  "1 \<le> totalPages loaded \<and> 1 \<le> currentPage loaded \<and> currentPage loaded \<le> totalPages loaded \<and>
   currentPage loaded = 1 \<and> totalPages loaded = 2 \<and>
   previousHandler loaded = loaded \<and> currentPage (nextHandler loaded) = 2 \<and>
   1 \<le> totalPages second_page \<and> 1 \<le> currentPage second_page \<and>
   currentPage second_page \<le> totalPages second_page \<and>
   currentPage second_page = 2 \<and> totalPages second_page = 2 \<and>
   nextHandler second_page = second_page \<and> currentPage (previousHandler second_page) = 1"
proof -
  have p1: "currentPage loaded = 1" and t1: "totalPages loaded = 2"
    by (rule loaded_facts)+
  have p2: "currentPage second_page = 2" and t2: "totalPages second_page = 2"
    by (rule second_page_facts)+
  have a: "1 \<le> totalPages loaded" "1 \<le> currentPage loaded" "currentPage loaded \<le> totalPages loaded"
    unfolding p1 t1 by simp_all
  have b: "1 \<le> totalPages second_page" "1 \<le> currentPage second_page"
    "currentPage second_page \<le> totalPages second_page"
    unfolding p2 t2 by simp_all
  from previous_next_clamped [OF a, where toLowerCase = lower_latin1]
    previous_next_clamped [OF b, where toLowerCase = lower_latin1] a b p1 t1 p2 t2
  show ?thesis by simp
qed

subsection \<open>C9: a response that is not ok\<close>

text \<open>
  Claim C9. For every response whose status is outside 200 to 299, the component stops
  loading and shows the error screen with the message \<open>HTTP error! status: \<close> followed
  by the decimal digits of the status code, which the message therefore includes; the
  base list and the filtered list keep their values.
\<close>

theorem http_error_status:
  assumes "\<not> ok r"
  shows "error (onFetchSettled toLowerCase (Resolved r) s) =
           Some (utf16 ''HTTP error! status: '' @ show_nat (status r)) \<and>
         includes_str (utf16 ''HTTP error! status: '' @ show_nat (status r)) (show_nat (status r)) \<and>
         read_nat (show_nat (status r)) = status r \<and>
         loading (onFetchSettled toLowerCase (Resolved r) s) = False \<and>
         render (onFetchSettled toLowerCase (Resolved r) s) =
           ErrorScreen (utf16 ''HTTP error! status: '' @ show_nat (status r)) \<and>
         users (onFetchSettled toLowerCase (Resolved r) s) = users s \<and>
         filteredUsers (onFetchSettled toLowerCase (Resolved r) s) = filteredUsers s"
proof -
  have thrown: "fetchUsers_try (Resolved r) =
      Inl (ErrorObject (utf16 ''HTTP error! status: '' @ show_nat (status r)))"
    using assms by (simp add: fetchUsers_try_def)
  have inc: "includes_str (utf16 ''HTTP error! status: '' @ show_nat (status r))
      (show_nat (status r))"
    by (rule includes_str_append)
  show ?thesis
    unfolding fetchUsers_failure [OF thrown] using inc
    by (simp add: render_def errorMessage_def read_nat_show_nat utf16_def)
qed

text \<open>
  On mount, with a response of status 500: the message contains \<open>500\<close>.
\<close>

theorem http_error_status_witness:
  "\<not> ok \<lparr>status = 500, json_result = Inr NotAnArray\<rparr> \<and>
   show_nat 500 = utf16 ''500'' \<and>
   error (onFetchSettled lower_latin1
      (Resolved \<lparr>status = 500, json_result = Inr NotAnArray\<rparr>) initial) =
     Some (utf16 ''HTTP error! status: 500'') \<and>
   includes_str (utf16 ''HTTP error! status: 500'') (utf16 ''500'') \<and>
   render (onFetchSettled lower_latin1
      (Resolved \<lparr>status = 500, json_result = Inr NotAnArray\<rparr>) initial) =
     ErrorScreen (utf16 ''HTTP error! status: 500'')"
proof -
  let ?r = "\<lparr>status = 500, json_result = Inr NotAnArray\<rparr>"
  have failed: "\<not> ok ?r" by (simp add: ok_def)
  have digits: "show_nat 500 = utf16 ''500''" by code_simp
  have message: "utf16 ''HTTP error! status: '' @ utf16 ''500'' = utf16 ''HTTP error! status: 500''"
    by (simp add: utf16_def)
  from http_error_status [OF failed, where s = initial and toLowerCase = lower_latin1]
    failed digits
  show ?thesis by (simp add: message)
qed

subsection \<open>C10: the handler of Next\<close>

text \<open>
  Claim C10. In every state the handler of Next sets the page to the smaller of
  \<open>currentPage + 1\<close> and \<open>totalPages\<close>; with an empty filtered list \<open>totalPages\<close> is 0,
  and from page 1 the handler would set the page to 0. The pagination bar is on screen
  only for a non-empty filtered list on the table screen, so with an empty filtered list
  the click cannot happen and the state stays as it is.
\<close>

theorem next_handler_min:
  "currentPage (nextHandler s) = min (currentPage s + 1) (totalPages s) \<and>
   (filteredUsers s = [] \<and> currentPage s = 1 \<longrightarrow>
      totalPages s = 0 \<and> currentPage (nextHandler s) = 0) \<and>
   (paginationShown s \<longleftrightarrow> render s = TableScreen \<and> filteredUsers s \<noteq> []) \<and>
   (filteredUsers s = [] \<longrightarrow> \<not> enabled NextClick s \<and> fire toLowerCase NextClick s = s)"
proof -
  have handler: "currentPage (nextHandler s) = min (currentPage s + 1) (totalPages s)"
    by (simp add: nextHandler_def)
  have empty: "totalPages s = 0 \<and> currentPage (nextHandler s) = 0"
    if "filteredUsers s = [] \<and> currentPage s = 1"
    using that totalPages_empty [of s] by (simp add: handler)
  have guard: "paginationShown s \<longleftrightarrow> render s = TableScreen \<and> filteredUsers s \<noteq> []"
    by (simp add: paginationShown_def)
  have off: "\<not> enabled NextClick s \<and> fire toLowerCase NextClick s = s" if "filteredUsers s = []"
    using that by (simp add: fire_def paginationShown_def)
  from handler empty guard off show ?thesis by blast
qed

text \<open>
  The sample run after a search without results.
\<close>

theorem next_handler_min_witness:
  "reachable lower_latin1 no_results \<and> render no_results = TableScreen \<and>
   filteredUsers no_results = [] \<and> currentPage no_results = 1 \<and>
   totalPages no_results = 0 \<and> currentPage (nextHandler no_results) = 0 \<and>
   \<not> paginationShown no_results \<and> fire lower_latin1 NextClick no_results = no_results"
proof -
  from next_handler_min [where s = no_results and toLowerCase = lower_latin1]
    no_results_facts reachable_no_results
  show ?thesis by simp
qed

end
